theory Spec2Isabelle
  imports Main "HOL-Library.Word" "HOL-Library.Sublist"
begin

section \<open>JavaScript strings\<close>

text \<open>
  A JavaScript string is a sequence of UTF-16 code units; \<open>length\<close> counts code units.
  String literals of the source are ASCII and are written through \<open>js\<close>.
\<close>

type_synonym cu = "16 word"
type_synonym jsstring = "cu list"

definition js :: "string \<Rightarrow> jsstring" where
  "js s = map of_char s"

abbreviation NL :: cu where "NL \<equiv> 0x0A"
abbreviation DQ :: cu where "DQ \<equiv> 0x22"

text \<open>
  White space as \<open>String.prototype.trim\<close> and the pattern atom \<open>\s\<close> see it: the WhiteSpace
  and LineTerminator productions of ECMAScript.
\<close>

definition is_space :: "cu \<Rightarrow> bool" where
  "is_space c \<longleftrightarrow>
     (0x09 \<le> c \<and> c \<le> 0x0D) \<or> c = 0x20 \<or> c = 0xA0 \<or> c = 0x1680 \<or>
     (0x2000 \<le> c \<and> c \<le> 0x200A) \<or> c = 0x2028 \<or> c = 0x2029 \<or> c = 0x202F \<or>
     c = 0x205F \<or> c = 0x3000 \<or> c = 0xFEFF"

definition is_line_terminator :: "cu \<Rightarrow> bool" where
  "is_line_terminator c \<longleftrightarrow> c = 0x0A \<or> c = 0x0D \<or> c = 0x2028 \<or> c = 0x2029"

definition is_word :: "cu \<Rightarrow> bool" where
  "is_word c \<longleftrightarrow>
     (0x61 \<le> c \<and> c \<le> 0x7A) \<or> (0x41 \<le> c \<and> c \<le> 0x5A) \<or> (0x30 \<le> c \<and> c \<le> 0x39) \<or> c = 0x5F"

definition trim :: "jsstring \<Rightarrow> jsstring" where
  "trim s = rev (dropWhile is_space (rev (dropWhile is_space s)))"

text \<open>\<open>s.split(sep)\<close> for a one-unit separator: always at least one piece.\<close>

fun split :: "cu \<Rightarrow> jsstring \<Rightarrow> jsstring list" where
  "split sep [] = [[]]"
| "split sep (c # cs) =
     (if c = sep then [] # split sep cs
      else (case split sep cs of [] \<Rightarrow> [[c]] | l # ls \<Rightarrow> (c # l) # ls))"

fun join :: "jsstring \<Rightarrow> jsstring list \<Rightarrow> jsstring" where
  "join sep [] = []"
| "join sep [l] = l"
| "join sep (l # ls) = l @ sep @ join sep ls"

text \<open>\<open>hay.includes(needle)\<close>: the needle occurs somewhere in the string.\<close>

fun includes_str :: "jsstring \<Rightarrow> jsstring \<Rightarrow> bool" where
  "includes_str [] needle = (needle = [])"
| "includes_str (c # cs) needle = (prefix needle (c # cs) \<or> includes_str cs needle)"

text \<open>\<open>s.replace(pat, rep)\<close> with a string pattern: the first occurrence only.\<close>

fun replace :: "jsstring \<Rightarrow> jsstring \<Rightarrow> jsstring \<Rightarrow> jsstring" where
  "replace [] pat rep = (if pat = [] then rep else [])"
| "replace (c # cs) pat rep =
     (if prefix pat (c # cs) then rep @ drop (length pat) (c # cs)
      else c # replace cs pat rep)"

text \<open>Number-to-string conversion of a non-negative integer (decimal).\<close>

fun toString :: "nat \<Rightarrow> jsstring" where
  "toString n = (if n < 10 then [0x30 + of_nat n] else toString (n div 10) @ [0x30 + of_nat (n mod 10)])"

declare toString.simps [simp del]

section \<open>Regular expressions\<close>

text \<open>
  The patterns of the source, as syntax trees, and a backtracking matcher after the
  ECMAScript semantics: a matcher maps a state to the list of states it can end in, in the
  order in which backtracking tries them. \<open>ChrI\<close> is a pattern character under the \<open>i\<close>
  flag. The patterns of this program put only ASCII letters under \<open>i\<close>; ECMAScript's
  Canonicalize never folds a code unit from 128 up to one below 128, so such a pattern
  character matches exactly its two ASCII cases. No pattern of the program has a capture
  group under \<open>+\<close>, and a group under \<open>?\<close> that is skipped keeps the undefined capture
  it started with, so the reset of captures at each iteration has nothing to do.
\<close>

datatype regex =
    Eps
  | Chr cu
  | ChrI cu
  | Range bool "(cu \<times> cu) list"
  | WordC
  | SpaceC
  | Dot
  | Seq regex regex
  | Alt regex regex
  | Opt regex
  | Plus regex
  | Group nat regex
  | Bol
  | Eol

record mstate =
  pos :: nat
  rest :: jsstring
  caps :: "nat \<rightharpoonup> jsstring"

definition canon :: "cu \<Rightarrow> cu" where
  "canon c = (if 0x61 \<le> c \<and> c \<le> 0x7A then c - 0x20 else c)"

definition in_ranges :: "(cu \<times> cu) list \<Rightarrow> cu \<Rightarrow> bool" where
  "in_ranges rs c = list_ex (\<lambda>(lo, hi). lo \<le> c \<and> c \<le> hi) rs"

definition step1 :: "(cu \<Rightarrow> bool) \<Rightarrow> mstate \<Rightarrow> mstate list" where
  "step1 p s =
     (case rest s of [] \<Rightarrow> []
      | c # cs \<Rightarrow> if p c then [s\<lparr>pos := Suc (pos s), rest := cs\<rparr>] else [])"

definition progress :: "mstate \<Rightarrow> mstate \<Rightarrow> bool" where
  "progress s s' \<longleftrightarrow> length (rest s') < length (rest s)"

text \<open>
  Greedy repetition from zero times on. An iteration that consumes nothing is dropped, as
  the RepeatMatcher does; matchers only move forward, so that is an iteration after which
  less input is left.
\<close>

function star :: "(mstate \<Rightarrow> mstate list) \<Rightarrow> mstate \<Rightarrow> mstate list" where
  "star m s = concat (map (star m) (filter (progress s) (m s))) @ [s]"
  by pat_completeness auto
termination
  by (relation "measure (\<lambda>(m, s). length (rest s))") (auto simp: progress_def)

declare star.simps [simp del]

primrec run :: "regex \<Rightarrow> mstate \<Rightarrow> mstate list" where
  "run Eps s = [s]"
| "run (Chr c) s = step1 (\<lambda>d. d = c) s"
| "run (ChrI c) s = step1 (\<lambda>d. canon d = canon c) s"
| "run (Range neg rs) s = step1 (\<lambda>d. in_ranges rs d \<noteq> neg) s"
| "run WordC s = step1 is_word s"
| "run SpaceC s = step1 is_space s"
| "run Dot s = step1 (\<lambda>d. \<not> is_line_terminator d) s"
| "run (Seq a b) s = concat (map (run b) (run a s))"
| "run (Alt a b) s = run a s @ run b s"
| "run (Opt a) s = filter (progress s) (run a s) @ [s]"
| "run (Plus a) s = concat (map (star (run a)) (run a s))"
| "run (Group i a) s =
     map (\<lambda>s'. s'\<lparr>caps := (caps s')(i \<mapsto> take (pos s' - pos s) (rest s))\<rparr>) (run a s)"
| "run Bol s = (if pos s = 0 then [s] else [])"
| "run Eol s = (if rest s = [] then [s] else [])"

definition seqs :: "regex list \<Rightarrow> regex" where
  "seqs rs = foldr Seq rs Eps"

fun alts :: "regex list \<Rightarrow> regex" where
  "alts [] = Eps"
| "alts [r] = r"
| "alts (r # rs) = Alt r (alts rs)"

definition str :: "string \<Rightarrow> regex" where
  "str w = seqs (map Chr (js w))"

definition stri :: "string \<Rightarrow> regex" where
  "stri w = seqs (map ChrI (js w))"

text \<open>
  \<open>RegExp.prototype.exec\<close> without the \<open>g\<close> flag: the first start index, from 0 up to the
  length of the input, at which the pattern matches, and there the first match in
  backtracking order. The result is the table of the numbered capture groups.
\<close>

fun exec_from :: "regex \<Rightarrow> nat \<Rightarrow> jsstring \<Rightarrow> (nat \<rightharpoonup> jsstring) option" where
  "exec_from r i inp =
     (case run r \<lparr>pos = i, rest = inp, caps = Map.empty\<rparr> of
        s # _ \<Rightarrow> Some (caps s)
      | [] \<Rightarrow> (case inp of [] \<Rightarrow> None | _ # cs \<Rightarrow> exec_from r (Suc i) cs))"

declare exec_from.simps [simp del]

definition exec :: "regex \<Rightarrow> jsstring \<Rightarrow> (nat \<rightharpoonup> jsstring) option" where
  "exec r inp = exec_from r 0 inp"

definition test :: "regex \<Rightarrow> jsstring \<Rightarrow> bool" where
  "test r inp \<longleftrightarrow> exec r inp \<noteq> None"

section \<open>Branch names (commands/branch.ts)\<close>

record BranchValidation =
  valid :: bool
  error :: "jsstring option"

definition slug :: regex where
  "slug = Plus (Range False [(0x61, 0x7A), (0x30, 0x39), (0x2D, 0x2D)])"

definition patterns :: "regex list" where
  "patterns =
     [seqs [Bol, str ''feature/'', slug, Eol],
      seqs [Bol, str ''bugfix/'', slug, Eol],
      seqs [Bol, str ''hotfix/'', slug, Eol],
      seqs [Bol, str ''release/'', slug, Eol],
      seqs [Bol, str ''main'', Eol],
      seqs [Bol, str ''develop'', Eol]]"

definition validateBranchName :: "jsstring \<Rightarrow> BranchValidation" where
  "validateBranchName name =
     (let isValid = list_ex (\<lambda>pattern. test pattern name) patterns in
      if \<not> isValid then
        \<lparr>valid = False,
         error = Some (js ''Branch name '' @ [DQ] @ name @ [DQ] @ js '' does not follow convention.'' @ [NL] @
                       js ''Valid formats: feature/name, bugfix/name, hotfix/name, release/name'')\<rparr>
      else \<lparr>valid = True, error = None\<rparr>)"

section \<open>Commit messages (commands/commit.ts)\<close>

datatype js_error = TypeError | ExecError

record CommitMessageValidation =
  valid :: bool
  errors :: "jsstring list"
  warnings :: "jsstring list"

definition conventionalCommitPattern :: regex where
  "conventionalCommitPattern =
     seqs [Bol,
           Group 1 (Plus WordC),
           Opt (Group 2 (seqs [Chr 0x28, Plus (Range True [(0x29, 0x29)]), Chr 0x29])),
           Opt (Group 3 (Chr 0x21)),
           Chr 0x3A,
           Plus SpaceC,
           Group 4 (Plus Dot),
           Eol]"

definition validTypes :: "jsstring list" where
  "validTypes =
     [js ''feat'', js ''fix'', js ''docs'', js ''style'', js ''refactor'',
      js ''test'', js ''chore'', js ''perf'', js ''ci'', js ''build'', js ''revert'']"

definition imperativePattern :: regex where
  "imperativePattern =
     seqs [Bol,
           Group 1 (alts [stri ''add'', stri ''update'', stri ''fix'', stri ''remove'', stri ''create'',
                          stri ''delete'', stri ''implement'', stri ''refactor'', stri ''improve'',
                          stri ''change''])]"

definition emptyMessageError :: jsstring where
  "emptyMessageError = js ''Commit message cannot be empty''"

definition headerWarning :: "nat \<Rightarrow> jsstring" where
  "headerWarning n = js ''Header should be 50 characters or less (currently '' @ toString n @ js '')''"

definition formatError :: jsstring where
  "formatError =
     js ''Commit message does not follow Conventional Commits format.'' @ [NL] @
     js ''Expected: <type>(<scope>): <subject>'' @ [NL] @
     js ''Example: feat(auth): add login functionality''"

text \<open>A template literal prints an undefined capture as \<open>undefined\<close>.\<close>

definition typeWarning :: "jsstring option \<Rightarrow> jsstring" where
  "typeWarning type =
     js ''Type '' @ [DQ] @ (case type of None \<Rightarrow> js ''undefined'' | Some t \<Rightarrow> t) @ [DQ] @
     js '' is not a standard conventional commit type.'' @ [NL] @
     js ''Common types: '' @ join (js '', '') validTypes"

definition emptySubjectError :: jsstring where
  "emptySubjectError = js ''Subject cannot be empty''"

definition subjectWarning :: jsstring where
  "subjectWarning = js ''Subject should be concise (50 characters or less)''"

definition imperativeWarning :: jsstring where
  "imperativeWarning = js ''Subject should use imperative mood (e.g., '' @ [DQ] @ js ''add'' @ [DQ] @
     js '' not '' @ [DQ] @ js ''added'' @ [DQ] @ js '')''"

definition bodyWarning :: jsstring where
  "bodyWarning = js ''Body should be concise (1000 characters or less)''"

text \<open>
  The checks on a matched header (the \<open>else\<close> branch of the format check): they extend
  the two lists. Reading \<open>length\<close> of an undefined capture throws.
\<close>

definition checkMatch ::
  "(nat \<rightharpoonup> jsstring) \<Rightarrow> jsstring list \<times> jsstring list \<Rightarrow> js_error + jsstring list \<times> jsstring list" where
  "checkMatch m ew =
     (let (errs, warns) = ew;
          type = m 1;
          warns = (if type \<notin> Some ` set validTypes then warns @ [typeWarning type] else warns)
      in case m 4 of
           None \<Rightarrow> Inl TypeError
         | Some subject \<Rightarrow>
             let (errs, warns) =
                   (if length subject = 0 then (errs @ [emptySubjectError], warns)
                    else if length subject > 50 then (errs, warns @ [subjectWarning])
                    else (errs, warns));
                 warns = (if \<not> test imperativePattern subject then warns @ [imperativeWarning]
                          else warns)
             in Inr (errs, warns))"

definition validateCommitMessage :: "jsstring \<Rightarrow> js_error + CommitMessageValidation" where
  "validateCommitMessage message =
     (if message = [] \<or> length (trim message) = 0 then
        Inr \<lparr>valid = False, errors = [emptyMessageError], warnings = []\<rparr>
      else
        case split NL (trim message) of
          [] \<Rightarrow> Inl TypeError
        | header # others \<Rightarrow>
            let body = join [NL] others;
                warns = (if length header > 72 then [headerWarning (length header)] else []);
                checked = (case exec conventionalCommitPattern header of
                             None \<Rightarrow> Inr ([formatError], warns)
                           | Some m \<Rightarrow> checkMatch m ([], warns))
            in case checked of
                 Inl e \<Rightarrow> Inl e
               | Inr (errs, warns) \<Rightarrow>
                   let warns = (if length body > 0 \<and> length body > 1000 then warns @ [bodyWarning]
                                else warns)
                   in Inr \<lparr>valid = (length errs = 0), errors = errs, warnings = warns\<rparr>)"

section \<open>Integration branch (utils/git.ts)\<close>

text \<open>
  The functions of utils/git.ts run git commands; the model takes the outcome of each
  \<open>execSync\<close> call as an input, in the order of the calls: a call either throws or returns
  the text the command printed.
\<close>

record GitQueries =
  fetchFirst :: "js_error + unit"
  branchesFirst :: "js_error + jsstring"
  symbolicRefHead :: "js_error + jsstring"
  fetchSecond :: "js_error + unit"
  branchesSecond :: "js_error + jsstring"

definition detectDefaultBranch :: "GitQueries \<Rightarrow> jsstring" where
  "detectDefaultBranch q =
     (let fromHead =
            (case symbolicRefHead q of
               Inl _ \<Rightarrow> None
             | Inr out \<Rightarrow>
                 let symbolicRef = trim out
                 in if symbolicRef \<noteq> [] then Some (replace symbolicRef (js ''refs/remotes/origin/'') [])
                    else None)
      in case fromHead of
           Some branch \<Rightarrow> branch
         | None \<Rightarrow>
             (let probed =
                    (case fetchSecond q of
                       Inl _ \<Rightarrow> None
                     | Inr _ \<Rightarrow>
                         (case branchesSecond q of
                            Inl _ \<Rightarrow> None
                          | Inr branches \<Rightarrow>
                              if includes_str branches (js ''origin/main'') then Some (js ''main'')
                              else if includes_str branches (js ''origin/master'') then Some (js ''master'')
                              else if includes_str branches (js ''origin/develop'') then Some (js ''develop'')
                              else None))
              in case probed of Some branch \<Rightarrow> branch | None \<Rightarrow> js ''main''))"

definition getIntegrationBranch :: "GitQueries \<Rightarrow> jsstring" where
  "getIntegrationBranch q =
     (case fetchFirst q of
        Inl _ \<Rightarrow> detectDefaultBranch q
      | Inr _ \<Rightarrow>
          (case branchesFirst q of
             Inl _ \<Rightarrow> detectDefaultBranch q
           | Inr branches \<Rightarrow>
               if includes_str branches (js ''origin/develop'') then js ''develop''
               else detectDefaultBranch q))"

section \<open>Auxiliary notions for the proofs\<close>

text \<open>\<open>adv k s\<close> is the state \<open>s\<close> after consuming \<open>k\<close> code units; \<open>moved s s'\<close> says that
  \<open>s'\<close> lies ahead of \<open>s\<close> in the same input; \<open>groups r\<close> are the capture groups of a pattern.\<close>

definition adv :: "nat \<Rightarrow> mstate \<Rightarrow> mstate" where
  "adv k s = s\<lparr>pos := pos s + k, rest := drop k (rest s)\<rparr>"

primrec groups :: "regex \<Rightarrow> nat set" where
  "groups Eps = {}"
| "groups (Chr c) = {}"
| "groups (ChrI c) = {}"
| "groups (Range neg rs) = {}"
| "groups WordC = {}"
| "groups SpaceC = {}"
| "groups Dot = {}"
| "groups (Seq a b) = groups a \<union> groups b"
| "groups (Alt a b) = groups a \<union> groups b"
| "groups (Opt a) = groups a"
| "groups (Plus a) = groups a"
| "groups (Group i a) = insert i (groups a)"
| "groups Bol = {}"
| "groups Eol = {}"

definition moved :: "mstate \<Rightarrow> mstate \<Rightarrow> bool" where
  "moved s s' \<longleftrightarrow> (\<exists>k \<le> length (rest s). pos s' = pos s + k \<and> rest s' = drop k (rest s))"

definition start :: "jsstring \<Rightarrow> mstate" where
  "start inp = \<lparr>pos = 0, rest = inp, caps = Map.empty\<rparr>"

text \<open>
  The branch names of the spec, in its words: a slug is one or more lowercase letters, digits
  or hyphens; \<open>kind_slug ''feature/'' name\<close> says that \<open>name\<close> is \<open>feature/\<close> followed by a slug.
\<close>

definition slug_char :: "cu \<Rightarrow> bool" where
  "slug_char c \<longleftrightarrow> (0x61 \<le> c \<and> c \<le> 0x7A) \<or> (0x30 \<le> c \<and> c \<le> 0x39) \<or> c = 0x2D"

definition is_slug :: "jsstring \<Rightarrow> bool" where
  "is_slug sl \<longleftrightarrow> sl \<noteq> [] \<and> (\<forall>c \<in> set sl. slug_char c)"

definition kind_slug :: "string \<Rightarrow> jsstring \<Rightarrow> bool" where
  "kind_slug kind name \<longleftrightarrow> prefix (js kind) name \<and> is_slug (drop (length kind) name)"

definition conventional_branch :: "jsstring \<Rightarrow> bool" where
  "conventional_branch name \<longleftrightarrow>
     kind_slug ''feature/'' name \<or> kind_slug ''bugfix/'' name \<or>
     kind_slug ''hotfix/'' name \<or> kind_slug ''release/'' name \<or>
     name = js ''main'' \<or> name = js ''develop''"

definition headerOf :: "jsstring \<Rightarrow> jsstring" where
  "headerOf message = (case split NL (trim message) of [] \<Rightarrow> [] | header # _ \<Rightarrow> header)"

definition bodyOf :: "jsstring \<Rightarrow> jsstring" where
  "bodyOf message = (case split NL (trim message) of [] \<Rightarrow> [] | _ # others \<Rightarrow> join [NL] others)"

definition headerWarnings :: "jsstring \<Rightarrow> jsstring list" where
  "headerWarnings header = (if length header > 72 then [headerWarning (length header)] else [])"

definition bodyWarnings :: "jsstring \<Rightarrow> jsstring list" where
  "bodyWarnings body = (if length body > 1000 then [bodyWarning] else [])"

text \<open>
  The spec's view of the detection: a decision over facts about the remote. \<open>git branch -r\<close>
  prints one remote branch on a line; the branch \<open>origin/<name>\<close> exists on the remote when
  the fetch and the listing both succeed and one line of the listing, without the white
  space around it, is \<open>origin/<name>\<close>. The symbolic default branch is available when the
  \<open>symbolic-ref\<close> query succeeds with a non-blank answer, and is that answer without
  \<open>refs/remotes/origin/\<close>.
\<close>

definition listsBranch :: "jsstring \<Rightarrow> string \<Rightarrow> bool" where
  "listsBranch branches name \<longleftrightarrow>
     list_ex (\<lambda>line. trim line = js (''origin/'' @ name)) (split NL branches)"

definition remoteHas :: "js_error + unit \<Rightarrow> js_error + jsstring \<Rightarrow> string \<Rightarrow> bool" where
  "remoteHas fetched listed name =
     (case fetched of
        Inl _ \<Rightarrow> False
      | Inr _ \<Rightarrow> (case listed of Inl _ \<Rightarrow> False | Inr branches \<Rightarrow> listsBranch branches name))"

definition headTarget :: "GitQueries \<Rightarrow> jsstring option" where
  "headTarget q =
     (case symbolicRefHead q of
        Inl _ \<Rightarrow> None
      | Inr out \<Rightarrow> if trim out = [] then None
                  else Some (replace (trim out) (js ''refs/remotes/origin/'') []))"

definition integrationBranchSpec :: "bool \<Rightarrow> jsstring option \<Rightarrow> bool \<Rightarrow> bool \<Rightarrow> bool \<Rightarrow> jsstring" where
  "integrationBranchSpec developExists symbolicDefault mainExists masterExists developExistsLater =
     (if developExists then js ''develop''
      else case symbolicDefault of
             Some branch \<Rightarrow> branch
           | None \<Rightarrow>
               if mainExists then js ''main''
               else if masterExists then js ''master''
               else if developExistsLater then js ''develop''
               else js ''main'')"

text \<open>
  A remote with the branches \<open>master\<close> and \<open>develop-old\<close> and no branch \<open>develop\<close>, whose
  default branch is \<open>master\<close>: what the five git calls return there.
\<close>

definition developOldQueries :: GitQueries where
  "developOldQueries =
     \<lparr>fetchFirst = Inr (),
      branchesFirst = Inr (js ''  origin/HEAD -> origin/master'' @ [NL] @
                           js ''  origin/develop-old'' @ [NL] @ js ''  origin/master'' @ [NL]),
      symbolicRefHead = Inr (js ''refs/remotes/origin/master'' @ [NL]),
      fetchSecond = Inr (),
      branchesSecond = Inr (js ''  origin/HEAD -> origin/master'' @ [NL] @
                            js ''  origin/develop-old'' @ [NL] @ js ''  origin/master'' @ [NL])\<rparr>"

section \<open>Properties of the matcher\<close>

lemma adv_simps [simp]:
  "pos (adv k s) = pos s + k" "rest (adv k s) = drop k (rest s)" "caps (adv k s) = caps s"
  by (simp_all add: adv_def)

lemma adv_0 [simp]: "adv 0 s = s"
  by (simp add: adv_def)

lemma adv_adv [simp]: "adv j (adv k s) = adv (k + j) s"
  by (simp add: adv_def add.commute)

lemma step1_iff:
  "s' \<in> set (step1 p s) \<longleftrightarrow> (rest s \<noteq> [] \<and> p (hd (rest s)) \<and> s' = adv (Suc 0) s)"
  by (cases "rest s") (auto simp: step1_def adv_def drop_Suc)

lemma star_step1_iff:
  "s' \<in> set (star (step1 p) s) \<longleftrightarrow> (\<exists>k \<le> length (takeWhile p (rest s)). s' = adv k s)"
proof (induction "rest s" arbitrary: s s')
  case Nil
  then show ?case
    by (subst star.simps) (simp add: step1_def)
next
  case (Cons c cs)
  let ?t = "adv (Suc 0) s"
  have rt: "rest ?t = cs" using Cons.hyps(2) [symmetric] by (simp add: drop_Suc)
  have IH: "s' \<in> set (star (step1 p) ?t) \<longleftrightarrow> (\<exists>k \<le> length (takeWhile p cs). s' = adv k ?t)"
    using Cons.hyps(1) [of ?t s'] rt by simp
  show ?case
  proof (cases "p c")
    case True
    have st: "step1 p s = [?t]"
      using Cons.hyps(2) [symmetric] True by (simp add: step1_def adv_def drop_Suc)
    have pr: "progress s ?t"
      using Cons.hyps(2) [symmetric] by (simp add: progress_def)
    have "s' \<in> set (star (step1 p) s) \<longleftrightarrow> s' \<in> set (star (step1 p) ?t) \<or> s' = s"
      using pr by (subst star.simps) (auto simp: st)
    also have "\<dots> \<longleftrightarrow> (\<exists>k \<le> length (takeWhile p cs). s' = adv (Suc k) s) \<or> s' = adv 0 s"
      by (simp add: IH)
    also have "\<dots> \<longleftrightarrow> (\<exists>k \<le> Suc (length (takeWhile p cs)). s' = adv k s)"
      by (metis (no_types, lifting) Suc_le_mono le0 not0_implies_Suc)
    finally show ?thesis
      using Cons.hyps(2) [symmetric] True by simp
  next
    case False
    have st: "step1 p s = []"
      using Cons.hyps(2) [symmetric] False by (simp add: step1_def)
    show ?thesis
      using Cons.hyps(2) [symmetric] False by (subst star.simps) (simp add: st)
  qed
qed

lemma plus_step1_iff:
  assumes "\<And>s. run a s = step1 p s"
  shows "s' \<in> set (run (Plus a) s) \<longleftrightarrow> (\<exists>k. 1 \<le> k \<and> k \<le> length (takeWhile p (rest s)) \<and> s' = adv k s)"
proof (cases "rest s")
  case Nil
  then show ?thesis by (simp add: assms step1_def)
next
  case (Cons c cs)
  have ra: "run a = step1 p" using assms by auto
  show ?thesis
  proof (cases "p c")
    case True
    have st: "step1 p s = [adv (Suc 0) s]"
      using Cons True by (simp add: step1_def adv_def drop_Suc)
    have "s' \<in> set (run (Plus a) s) \<longleftrightarrow> (\<exists>k \<le> length (takeWhile p cs). s' = adv (Suc k) s)"
      using Cons by (simp add: ra st star_step1_iff drop_Suc)
    also have "\<dots> \<longleftrightarrow> (\<exists>k. 1 \<le> k \<and> k \<le> Suc (length (takeWhile p cs)) \<and> s' = adv k s)"
      by (metis One_nat_def Suc_le_D Suc_le_mono le_add1 plus_1_eq_Suc)
    finally show ?thesis using Cons True by simp
  next
    case False
    then show ?thesis using Cons by (simp add: ra step1_def)
  qed
qed

lemma moved_refl [simp]: "moved s s"
  unfolding moved_def by (rule exI [of _ 0]) simp

lemma moved_trans: "moved s t \<Longrightarrow> moved t u \<Longrightarrow> moved s u"
  unfolding moved_def
proof (elim exE conjE)
  fix k j
  assume a: "k \<le> length (rest s)" "pos t = pos s + k" "rest t = drop k (rest s)"
    and b: "j \<le> length (rest t)" "pos u = pos t + j" "rest u = drop j (rest t)"
  have "k + j \<le> length (rest s)" using a b by simp
  moreover have "pos u = pos s + (k + j)" using a b by simp
  moreover have "rest u = drop (k + j) (rest s)" using a b by (simp add: add.commute)
  ultimately show "\<exists>k\<le>length (rest s). pos u = pos s + k \<and> rest u = drop k (rest s)"
    by blast
qed

lemma step1_moved: "s' \<in> set (step1 p s) \<Longrightarrow> moved s s'"
  unfolding moved_def
  by (cases "rest s") (auto simp: step1_def split: if_splits intro: exI [of _ "Suc 0"])

lemma star_cases:
  "s' \<in> set (star m s) \<longleftrightarrow> s' = s \<or> (\<exists>t \<in> set (m s). progress s t \<and> s' \<in> set (star m t))"
  by (subst star.simps) auto

lemma star_closure:
  assumes step: "\<And>s s'. s' \<in> set (m s) \<Longrightarrow> R s s'"
    and refl: "\<And>s. R s s"
    and trans: "\<And>s t u. R s t \<Longrightarrow> R t u \<Longrightarrow> R s u"
  shows "s' \<in> set (star m s) \<Longrightarrow> R s s'"
proof (induction "length (rest s)" arbitrary: s rule: less_induct)
  case less
  from less.prems consider "s' = s" | t where "t \<in> set (m s)" "progress s t" "s' \<in> set (star m t)"
    by (auto simp: star_cases [of s' m s])
  then show ?case
  proof cases
    case 1
    then show ?thesis by (simp add: refl)
  next
    case 2
    have "R t s'" using less.hyps [of t] 2 by (simp add: progress_def)
    with step [OF 2(1)] show ?thesis by (rule trans)
  qed
qed

lemma run_moved: "s' \<in> set (run r s) \<Longrightarrow> moved s s'"
proof (induction r arbitrary: s s')
  case (Seq a b)
  from Seq.prems obtain t where t: "t \<in> set (run a s)" "s' \<in> set (run b t)" by auto
  show ?case by (rule moved_trans [OF Seq.IH(1) [OF t(1)] Seq.IH(2) [OF t(2)]])
next
  case (Plus a)
  from Plus.prems obtain t where t: "t \<in> set (run a s)" "s' \<in> set (star (run a) t)" by auto
  have "moved t s'"
    by (rule star_closure [where R = moved and m = "run a", OF Plus.IH moved_refl moved_trans t(2)])
  with Plus.IH [OF t(1)] show ?case by (rule moved_trans)
next
  case (Group i a)
  then obtain t where t: "t \<in> set (run a s)" "s' = t\<lparr>caps := (caps t)(i \<mapsto> take (pos t - pos s) (rest s))\<rparr>"
    by auto
  from Group.IH [OF t(1)] show ?case by (simp add: moved_def t(2))
qed (auto simp: step1_moved split: if_splits)

lemma progress_iff_pos:
  assumes "s' \<in> set (run r s)"
  shows "progress s s' \<longleftrightarrow> pos s' \<noteq> pos s"
proof -
  from run_moved [OF assms] obtain k where
    k: "k \<le> length (rest s)" "pos s' = pos s + k" "rest s' = drop k (rest s)"
    unfolding moved_def by blast
  then show ?thesis by (auto simp: progress_def)
qed

lemma step1_caps: "s' \<in> set (step1 p s) \<Longrightarrow> caps s' = caps s"
  by (cases "rest s") (auto simp: step1_def split: if_splits)

lemma run_caps: "s' \<in> set (run r s) \<Longrightarrow> i \<notin> groups r \<Longrightarrow> caps s' i = caps s i"
proof (induction r arbitrary: s s')
  case (Seq a b)
  from Seq.prems obtain t where t: "t \<in> set (run a s)" "s' \<in> set (run b t)" by auto
  from Seq.IH(1) [OF t(1)] Seq.IH(2) [OF t(2)] Seq.prems(2) show ?case by simp
next
  case (Plus a)
  from Plus.prems obtain t where t: "t \<in> set (run a s)" "s' \<in> set (star (run a) t)" by auto
  have keep: "\<And>s s'. s' \<in> set (run a s) \<Longrightarrow> caps s' i = caps s i"
    using Plus.IH Plus.prems(2) by simp
  have "caps s' i = caps t i"
    by (rule star_closure [where R = "\<lambda>s s'. caps s' i = caps s i" and m = "run a", OF keep _ _ t(2)]) simp_all
  with keep [OF t(1)] show ?case by simp
qed (auto simp: step1_caps split: if_splits)

lemma run_seqs_Nil [simp]: "run (seqs []) s = [s]"
  by (simp add: seqs_def)

lemma run_seqs_Cons: "run (seqs (r # rs)) s = concat (map (run (seqs rs)) (run r s))"
  by (simp add: seqs_def)

lemma in_run_seqs_Cons:
  "s'' \<in> set (run (seqs (r # rs)) s) \<longleftrightarrow> (\<exists>s' \<in> set (run r s). s'' \<in> set (run (seqs rs) s'))"
  by (auto simp: run_seqs_Cons)

lemma in_run_chrs:
  "s' \<in> set (run (seqs (map Chr w)) s) \<longleftrightarrow> prefix w (rest s) \<and> s' = adv (length w) s"
proof (induction w arbitrary: s)
  case Nil
  then show ?case by simp
next
  case (Cons c w)
  show ?case
  proof (cases "rest s")
    case Nil
    then show ?thesis by (simp add: in_run_seqs_Cons step1_def)
  next
    case (Cons d ds)
    then show ?thesis
      by (auto simp: in_run_seqs_Cons step1_iff Cons.IH drop_Suc)
  qed
qed

lemma in_run_str:
  "s' \<in> set (run (str w) s) \<longleftrightarrow> prefix (js w) (rest s) \<and> s' = adv (length w) s"
  by (simp only: str_def js_def in_run_chrs length_map)

lemma in_run_Eol: "s' \<in> set (run Eol s) \<longleftrightarrow> rest s = [] \<and> s' = s"
  by auto

lemma in_run_Bol: "s' \<in> set (run Bol s) \<longleftrightarrow> pos s = 0 \<and> s' = s"
  by auto

lemma exec_anchored_None:
  "0 < i \<Longrightarrow> exec_from (seqs (Bol # rs)) i inp = None"
  by (induction inp arbitrary: i) (subst exec_from.simps, simp add: run_seqs_Cons)+

lemma exec_anchored:
  "exec (seqs (Bol # rs)) inp =
     (case run (seqs rs) (start inp) of [] \<Rightarrow> None | s # _ \<Rightarrow> Some (caps s))"
  unfolding exec_def start_def
  by (subst exec_from.simps) (simp add: run_seqs_Cons exec_anchored_None split: list.splits)

lemma test_anchored:
  "test (seqs (Bol # rs)) inp \<longleftrightarrow> (\<exists>s. s \<in> set (run (seqs rs) (start inp)))"
  by (auto simp: test_def exec_anchored split: list.splits)

section \<open>Properties of the branch-name validator\<close>

lemma all_run_iff:
  "(\<exists>k. 1 \<le> k \<and> k \<le> length (takeWhile p r) \<and> drop k r = []) \<longleftrightarrow> r \<noteq> [] \<and> (\<forall>c \<in> set r. p c)"
proof
  assume "\<exists>k. 1 \<le> k \<and> k \<le> length (takeWhile p r) \<and> drop k r = []"
  then obtain k where k: "1 \<le> k" "k \<le> length (takeWhile p r)" "drop k r = []" by blast
  have "length (takeWhile p r) \<le> length r" by (rule length_takeWhile_le)
  with k have "length (takeWhile p r) = length r" by simp
  then have "takeWhile p r = r"
    by (metis takeWhile_dropWhile_id append_eq_conv_conj append_Nil2 length_0_conv
          length_append add_diff_cancel_left' diff_self_eq_0 append_self_conv)
  then have "\<forall>c \<in> set r. p c" by (metis set_takeWhileD)
  moreover have "r \<noteq> []" using k by auto
  ultimately show "r \<noteq> [] \<and> (\<forall>c \<in> set r. p c)" by simp
next
  assume a: "r \<noteq> [] \<and> (\<forall>c \<in> set r. p c)"
  then have tw: "takeWhile p r = r" by (simp add: takeWhile_eq_all_conv)
  from a have "1 \<le> length r" by (simp add: Suc_leI)
  then show "\<exists>k. 1 \<le> k \<and> k \<le> length (takeWhile p r) \<and> drop k r = []"
    by (intro exI [of _ "length r"]) (simp add: tw)
qed

lemma slug_range: "in_ranges [(0x61, 0x7A), (0x30, 0x39), (0x2D, 0x2D)] c \<longleftrightarrow> slug_char c"
  by (auto simp: in_ranges_def slug_char_def)

lemma in_run_slug:
  "s' \<in> set (run slug s) \<longleftrightarrow> (\<exists>k. 1 \<le> k \<and> k \<le> length (takeWhile slug_char (rest s)) \<and> s' = adv k s)"
  unfolding slug_def
  by (rule plus_step1_iff) (simp add: slug_range)

lemma test_kind_slug:
  "test (seqs [Bol, str w, slug, Eol]) name \<longleftrightarrow> kind_slug w name"
proof -
  have "test (seqs [Bol, str w, slug, Eol]) name \<longleftrightarrow>
        prefix (js w) name \<and>
        (\<exists>k. 1 \<le> k \<and> k \<le> length (takeWhile slug_char (drop (length w) name)) \<and>
             drop k (drop (length w) name) = [])"
    by (auto simp: test_anchored in_run_seqs_Cons in_run_str in_run_slug in_run_Eol start_def)
  also have "\<dots> \<longleftrightarrow> prefix (js w) name \<and> is_slug (drop (length w) name)"
    by (simp only: all_run_iff is_slug_def)
  finally show ?thesis by (simp only: kind_slug_def)
qed

lemma test_literal:
  "test (seqs [Bol, str w, Eol]) name \<longleftrightarrow> name = js w"
proof -
  have "test (seqs [Bol, str w, Eol]) name \<longleftrightarrow> prefix (js w) name \<and> drop (length w) name = []"
    by (auto simp: test_anchored in_run_seqs_Cons in_run_str in_run_Eol start_def)
  also have "\<dots> \<longleftrightarrow> name = js w"
    by (auto simp: prefix_def js_def)
  finally show ?thesis .
qed

lemma isValid_iff:
  "list_ex (\<lambda>pattern. test pattern name) patterns \<longleftrightarrow> conventional_branch name"
  unfolding patterns_def conventional_branch_def
  by (simp only: list_ex_Cons_iff list_ex_Nil_iff test_kind_slug test_literal) blast

lemma kind_slug_iff: "kind_slug kind name \<longleftrightarrow> (\<exists>sl. is_slug sl \<and> name = js kind @ sl)"
  by (auto simp: kind_slug_def prefix_def js_def)

lemmas eval_defs = js_def is_space_def is_word_def is_line_terminator_def trim_def canon_def in_ranges_def step1_def progress_def
   star.simps seqs_def str_def stri_def exec_from.simps exec_def test_def slug_def patterns_def validateBranchName_def

text \<open>
  C4: a branch name is valid exactly when it is \<open>feature/\<close>, \<open>bugfix/\<close>, \<open>hotfix/\<close> or
  \<open>release/\<close> followed by a slug (one or more lowercase letters, digits or hyphens), or is
  \<open>main\<close> or \<open>develop\<close>. So \<open>feature/add-logging\<close>, \<open>main\<close> and \<open>develop\<close> are valid and
  \<open>Feature/AddLogging\<close> is not.
\<close>

theorem validateBranchName_valid_iff:
  "(BranchValidation.valid (validateBranchName name) \<longleftrightarrow> conventional_branch name) \<and>
   BranchValidation.valid (validateBranchName (js ''feature/add-logging'')) \<and>
   BranchValidation.valid (validateBranchName (js ''main'')) \<and>
   BranchValidation.valid (validateBranchName (js ''develop'')) \<and>
   \<not> BranchValidation.valid (validateBranchName (js ''Feature/AddLogging''))"
proof (intro conjI)
  show "BranchValidation.valid (validateBranchName name) \<longleftrightarrow> conventional_branch name"
    by (simp add: validateBranchName_def isValid_iff)
  show "BranchValidation.valid (validateBranchName (js ''feature/add-logging''))"
    by (simp add: eval_defs)
  show "BranchValidation.valid (validateBranchName (js ''main''))"
    by (simp add: eval_defs)
  show "BranchValidation.valid (validateBranchName (js ''develop''))"
    by (simp add: eval_defs)
  show "\<not> BranchValidation.valid (validateBranchName (js ''Feature/AddLogging''))"
    by (simp add: eval_defs)
qed

theorem validateBranchName_valid_iff_witness:
  "BranchValidation.valid (validateBranchName (js ''hotfix/fix-42'')) \<and>
   conventional_branch (js ''hotfix/fix-42'') \<and>
   \<not> BranchValidation.valid (validateBranchName (js ''feature/'')) \<and>
   \<not> conventional_branch (js ''feature/'')"
  using validateBranchName_valid_iff [of "js ''hotfix/fix-42''"]
    validateBranchName_valid_iff [of "js ''feature/''"]
  by (simp add: eval_defs)

section \<open>Properties of the commit-message validator\<close>

lemma in_run_seqs_append:
  "s'' \<in> set (run (seqs (xs @ ys)) s) \<longleftrightarrow> (\<exists>s' \<in> set (run (seqs xs) s). s'' \<in> set (run (seqs ys) s'))"
proof (induction xs arbitrary: s)
  case Nil
  then show ?case by simp
next
  case (Cons x xs)
  show ?case by (auto simp: run_seqs_Cons Cons.IH simp del: run.simps)
qed

lemma in_run_seqs_single: "s' \<in> set (run (seqs [r]) s) \<longleftrightarrow> s' \<in> set (run r s)"
  by (auto simp: seqs_def)

lemma in_run_seqs_Eol: "s' \<in> set (run (seqs [r, Eol]) s) \<longleftrightarrow> s' \<in> set (run r s) \<and> rest s' = []"
  by (auto simp: seqs_def)

lemma in_run_Group:
  "s' \<in> set (run (Group i a) s) \<longleftrightarrow>
     (\<exists>t \<in> set (run a s). s' = t\<lparr>caps := (caps t)(i \<mapsto> take (pos t - pos s) (rest s))\<rparr>)"
  by auto

lemma in_run_Group_Plus:
  assumes "\<And>s. run a s = step1 p s"
  shows "s' \<in> set (run (Group i (Plus a)) s) \<longleftrightarrow>
     (\<exists>k. 1 \<le> k \<and> k \<le> length (takeWhile p (rest s)) \<and>
          s' = (adv k s)\<lparr>caps := (caps s)(i \<mapsto> take k (rest s))\<rparr>)"
proof -
  have "s' \<in> set (run (Group i (Plus a)) s) \<longleftrightarrow>
        (\<exists>t. t \<in> set (run (Plus a) s) \<and> s' = t\<lparr>caps := (caps t)(i \<mapsto> take (pos t - pos s) (rest s))\<rparr>)"
    unfolding in_run_Group by blast
  also have "\<dots> \<longleftrightarrow> (\<exists>k. 1 \<le> k \<and> k \<le> length (takeWhile p (rest s)) \<and>
          s' = (adv k s)\<lparr>caps := (caps s)(i \<mapsto> take k (rest s))\<rparr>)"
    unfolding plus_step1_iff [of a p, OF assms] by auto
  finally show ?thesis .
qed

lemma takeWhile_length_le: "k \<le> length (takeWhile p xs) \<Longrightarrow> k \<le> length xs"
  using length_takeWhile_le [of p xs] by simp

lemma take_takeWhile_all: "k \<le> length (takeWhile p xs) \<Longrightarrow> \<forall>c \<in> set (take k xs). p c"
proof
  fix c
  assume k: "k \<le> length (takeWhile p xs)" and c: "c \<in> set (take k xs)"
  have "take k xs = take k (takeWhile p xs)"
    by (metis k takeWhile_dropWhile_id take_append diff_is_0_eq take_0 append_Nil2)
  with c have "c \<in> set (takeWhile p xs)" by (metis in_set_takeD)
  then show "p c" by (rule set_takeWhileD [THEN conjunct2])
qed

lemma conventionalCommitPattern_captures:
  assumes "exec conventionalCommitPattern header = Some m"
  shows "\<exists>k subject. 1 \<le> k \<and> k \<le> length (takeWhile is_word header) \<and> m 1 = Some (take k header) \<and>
           m 4 = Some subject \<and> subject \<noteq> []"
proof -
  let ?mid = "[Opt (Group 2 (seqs [Chr 0x28, Plus (Range True [(0x29, 0x29)]), Chr 0x29])),
               Opt (Group 3 (Chr 0x21)), Chr 0x3A, Plus SpaceC]"
  let ?g1 = "Group 1 (Plus WordC)" and ?g4 = "Group 4 (Plus Dot)"
  have pat: "conventionalCommitPattern = seqs (Bol # ([?g1] @ ?mid @ [?g4, Eol]))"
    by (simp add: conventionalCommitPattern_def)
  from assms obtain s where s: "s \<in> set (run (seqs ([?g1] @ ?mid @ [?g4, Eol])) (start header))" "m = caps s"
    unfolding pat exec_anchored by (auto split: list.splits)
  from s(1) have "\<exists>s1 \<in> set (run (seqs [?g1]) (start header)).
      \<exists>s6 \<in> set (run (seqs ?mid) s1). s \<in> set (run (seqs [?g4, Eol]) s6)"
    by (simp only: in_run_seqs_append)
  then obtain s1 s6 where
    s1: "s1 \<in> set (run ?g1 (start header))" and
    s6: "s6 \<in> set (run (seqs ?mid) s1)" and
    s7: "s \<in> set (run ?g4 s6)" and
    fin: "rest s = []"
    unfolding Bex_def in_run_seqs_single in_run_seqs_Eol by blast
  from s1 obtain k where k: "1 \<le> k" "k \<le> length (takeWhile is_word header)"
    "s1 = (adv k (start header))\<lparr>caps := (caps (start header))(1 \<mapsto> take k header)\<rparr>"
    by (subst (asm) in_run_Group_Plus [where p = is_word]) (auto simp: start_def)
  have c1: "caps s6 1 = Some (take k header)"
    using run_caps [OF s6, of 1] k(3) by (simp add: seqs_def)
  from s7 obtain j where j: "1 \<le> j" "j \<le> length (takeWhile (\<lambda>d. \<not> is_line_terminator d) (rest s6))"
    "s = (adv j s6)\<lparr>caps := (caps s6)(4 \<mapsto> take j (rest s6))\<rparr>"
    by (subst (asm) in_run_Group_Plus [where p = "\<lambda>d. \<not> is_line_terminator d"]) auto
  have "j \<le> length (rest s6)" using j(2) by (rule takeWhile_length_le)
  with j(1) have ne: "take j (rest s6) \<noteq> []" by auto
  have "m 1 = Some (take k header)" "m 4 = Some (take j (rest s6))"
    using s(2) j(3) c1 by simp_all
  with k ne show ?thesis by blast
qed

lemma split_nonempty: "split sep s \<noteq> []"
  by (induction s) (auto split: list.splits)

lemma trim_Nil [simp]: "trim [] = []"
  by (simp add: trim_def)

lemma split_header_body:
  "split NL (trim message) = headerOf message # tl (split NL (trim message)) \<and>
   bodyOf message = join [NL] (tl (split NL (trim message)))"
  using split_nonempty [of NL "trim message"]
  by (cases "split NL (trim message)") (simp_all add: headerOf_def bodyOf_def)

lemma validate_blank:
  "trim message = [] \<Longrightarrow>
     validateCommitMessage message = Inr \<lparr>valid = False, errors = [emptyMessageError], warnings = []\<rparr>"
  by (simp add: validateCommitMessage_def)

lemma validate_nomatch:
  assumes "trim message \<noteq> []" and "exec conventionalCommitPattern (headerOf message) = None"
  shows "validateCommitMessage message =
     Inr \<lparr>valid = False, errors = [formatError],
          warnings = headerWarnings (headerOf message) @ bodyWarnings (bodyOf message)\<rparr>"
proof -
  from assms(1) have ne: "message \<noteq> []" by auto
  obtain others where sp: "split NL (trim message) = headerOf message # others"
    and bd: "bodyOf message = join [NL] others"
    using split_header_body [of message] by blast
  show ?thesis
    using assms ne
    by (simp add: validateCommitMessage_def sp bd [symmetric] headerWarnings_def bodyWarnings_def)
qed

lemma validate_match:
  assumes "trim message \<noteq> []" and "exec conventionalCommitPattern (headerOf message) = Some m"
  shows "\<exists>subject. m 4 = Some subject \<and> subject \<noteq> [] \<and>
     validateCommitMessage message =
     Inr \<lparr>valid = True, errors = [],
          warnings = headerWarnings (headerOf message) @
            (if m 1 \<notin> Some ` set validTypes then [typeWarning (m 1)] else []) @
            (if length subject > 50 then [subjectWarning] else []) @
            (if \<not> test imperativePattern subject then [imperativeWarning] else []) @
            bodyWarnings (bodyOf message)\<rparr>"
proof -
  from assms(1) have ne: "message \<noteq> []" by auto
  obtain others where sp: "split NL (trim message) = headerOf message # others"
    and bd: "bodyOf message = join [NL] others"
    using split_header_body [of message] by blast
  from conventionalCommitPattern_captures [OF assms(2)]
  obtain subject where sj: "m 4 = Some subject" "subject \<noteq> []" by blast
  have "validateCommitMessage message =
     Inr \<lparr>valid = True, errors = [],
          warnings = headerWarnings (headerOf message) @
            (if m 1 \<notin> Some ` set validTypes then [typeWarning (m 1)] else []) @
            (if length subject > 50 then [subjectWarning] else []) @
            (if \<not> test imperativePattern subject then [imperativeWarning] else []) @
            bodyWarnings (bodyOf message)\<rparr>"
    using assms ne sj
    by (simp add: validateCommitMessage_def checkMatch_def sp bd [symmetric]
        headerWarnings_def bodyWarnings_def)
  with sj show ?thesis by blast
qed

lemmas commit_eval_defs = eval_defs conventionalCommitPattern_def validTypes_def imperativePattern_def
  checkMatch_def validateCommitMessage_def headerOf_def bodyOf_def

lemma validate_shape:
  "\<exists>r. validateCommitMessage message = Inr r \<and>
       (errors r = [emptyMessageError] \<or> errors r = [formatError] \<or> errors r = []) \<and>
       (valid r \<longleftrightarrow> errors r = [])"
proof (cases "trim message = []")
  case True
  then show ?thesis by (simp add: validate_blank)
next
  case False
  show ?thesis
  proof (cases "exec conventionalCommitPattern (headerOf message)")
    case None
    with False show ?thesis by (simp add: validate_nomatch)
  next
    case (Some m)
    from validate_match [OF False Some] show ?thesis by auto
  qed
qed

text \<open>The matcher on the examples of the spec, and on a header that ends in a carriage return.\<close>

lemma validateCommitMessage_examples:
  "validateCommitMessage (js ''feat(auth): add login functionality'') =
     Inr \<lparr>valid = True, errors = [], warnings = []\<rparr>"
  "validateCommitMessage (js ''foo: add x'') =
     Inr \<lparr>valid = True, errors = [], warnings = [typeWarning (Some (js ''foo''))]\<rparr>"
  "validateCommitMessage (js ''feat!: Fix it'' @ [0x0D, NL] @ js ''body'') =
     Inr \<lparr>valid = False, errors = [formatError], warnings = []\<rparr>"
  by (simp_all add: commit_eval_defs)

text \<open>
  C6: a message that is empty after trimming gives exactly
  \<open>{valid: false, errors: ["Commit message cannot be empty"], warnings: []}\<close>.
\<close>

theorem validateCommitMessage_blank:
  "trim message = [] \<Longrightarrow>
     validateCommitMessage message =
       Inr \<lparr>valid = False, errors = [js ''Commit message cannot be empty''], warnings = []\<rparr>"
  by (simp add: validate_blank emptyMessageError_def)

theorem validateCommitMessage_blank_witness:
  "trim [] = [] \<and>
   validateCommitMessage [] =
     Inr \<lparr>valid = False, errors = [js ''Commit message cannot be empty''], warnings = []\<rparr> \<and>
   trim (js ''  '' @ [NL, 0x09]) = [] \<and>
   validateCommitMessage (js ''  '' @ [NL, 0x09]) =
     Inr \<lparr>valid = False, errors = [js ''Commit message cannot be empty''], warnings = []\<rparr>"
proof -
  have a: "trim [] = []" by simp
  have b: "trim (js ''  '' @ [NL, 0x09]) = []" by (simp add: trim_def js_def is_space_def)
  show ?thesis
    using a b validateCommitMessage_blank [OF a] validateCommitMessage_blank [OF b] by simp
qed

text \<open>
  C8: the result always has \<open>valid = (errors.length === 0)\<close>; the warnings play no part.
\<close>

theorem validateCommitMessage_valid_iff_no_errors:
  "\<exists>r. validateCommitMessage message = Inr r \<and> (valid r \<longleftrightarrow> errors r = [])"
  using validate_shape [of message] by blast

text \<open>
  C9: both validators return a result for every string: the commit validator never takes an
  exception branch, and the branch validator (which has none) returns \<open>valid\<close> with no error
  text or not \<open>valid\<close> with one.
\<close>

theorem validators_total:
  "(\<exists>r. validateCommitMessage message = Inr r) \<and>
   (\<forall>e. validateCommitMessage message \<noteq> Inl e) \<and>
   (BranchValidation.valid (validateBranchName name) \<longleftrightarrow> error (validateBranchName name) = None)"
proof -
  obtain r where "validateCommitMessage message = Inr r"
    using validate_shape [of message] by blast
  then show ?thesis by (simp add: validateBranchName_def Let_def)
qed

lemma hd_texts:
  "hd (headerWarning n) = 0x48" "hd (typeWarning t) = 0x54" "hd subjectWarning = 0x53"
  "hd imperativeWarning = 0x53" "hd bodyWarning = 0x42" "hd formatError = 0x43"
  "hd emptyMessageError = 0x43" "hd emptySubjectError = 0x53"
  by (simp_all add: headerWarning_def typeWarning_def subjectWarning_def imperativeWarning_def
      bodyWarning_def formatError_def emptyMessageError_def emptySubjectError_def js_def)

lemma headerWarning_distinct:
  "headerWarning n \<noteq> typeWarning t" "headerWarning n \<noteq> subjectWarning"
  "headerWarning n \<noteq> imperativeWarning" "headerWarning n \<noteq> bodyWarning"
  by (auto dest: arg_cong [where f = hd] simp: hd_texts)

lemma bodyWarning_distinct:
  "bodyWarning \<noteq> typeWarning t" "bodyWarning \<noteq> subjectWarning" "bodyWarning \<noteq> imperativeWarning"
  by (auto dest: arg_cong [where f = hd] simp: hd_texts)

lemma error_texts_distinct:
  "emptySubjectError \<noteq> formatError" "emptySubjectError \<noteq> emptyMessageError"
  by (auto dest: arg_cong [where f = hd] simp: hd_texts)

lemma headerWarning_text:
  "prefix (js ''Header should be 50 characters or less'') (headerWarning n)"
  by (simp add: headerWarning_def js_def)

text \<open>
  C7: the result carries a header-length warning exactly when the header, the first line of
  the trimmed message, has more than 72 code units; the warning then reports the length and
  its text names 50 as the limit.
\<close>

theorem header_warning_iff_longer_than_72:
  "\<exists>r. validateCommitMessage message = Inr r \<and>
       ((\<exists>n. headerWarning n \<in> set (warnings r)) \<longleftrightarrow> 72 < length (headerOf message)) \<and>
       (72 < length (headerOf message) \<longrightarrow> headerWarning (length (headerOf message)) \<in> set (warnings r)) \<and>
       (\<forall>n. prefix (js ''Header should be 50 characters or less'') (headerWarning n))"
proof (cases "trim message = []")
  case True
  then have "headerOf message = []" by (simp add: headerOf_def)
  with True show ?thesis by (simp add: validate_blank headerWarning_text)
next
  case False
  show ?thesis
  proof (cases "exec conventionalCommitPattern (headerOf message)")
    case None
    with False show ?thesis
      by (auto simp: validate_nomatch headerWarnings_def bodyWarnings_def headerWarning_distinct
          headerWarning_text)
  next
    case (Some m)
    from validate_match [OF False Some] show ?thesis
      by (auto simp: headerWarnings_def bodyWarnings_def headerWarning_distinct headerWarning_text)
  qed
qed

theorem header_warning_iff_longer_than_72_witness:
  "72 < length (headerOf (js ''feat: add the long explanation of everything that this change is doing xx'')) \<and>
   (\<exists>r. validateCommitMessage (js ''feat: add the long explanation of everything that this change is doing xx'') = Inr r \<and> headerWarning 73 \<in> set (warnings r)) \<and>
   \<not> 72 < length (headerOf (js ''feat: add the long explanation of everything that this change is doing x'')) \<and>
   (\<exists>r. validateCommitMessage (js ''feat: add the long explanation of everything that this change is doing x'') = Inr r \<and> (\<forall>n. headerWarning n \<notin> set (warnings r)))"
proof -
  have a: "length (headerOf (js ''feat: add the long explanation of everything that this change is doing xx'')) = 73"
    by (simp add: headerOf_def trim_def js_def is_space_def)
  have b: "length (headerOf (js ''feat: add the long explanation of everything that this change is doing x'')) = 72"
    by (simp add: headerOf_def trim_def js_def is_space_def)
  show ?thesis
    using header_warning_iff_longer_than_72 [of "js ''feat: add the long explanation of everything that this change is doing xx''"]
      header_warning_iff_longer_than_72 [of "js ''feat: add the long explanation of everything that this change is doing x''"]
    unfolding a b by auto
qed

text \<open>
  C3: for a non-empty message whose header does not match the pattern, the result has exactly
  one error and is not valid, and its warnings are only the header-length and body-length
  warnings: no type, subject or imperative-mood check has left a trace.
\<close>

theorem unmatched_header_one_error:
  assumes "message \<noteq> []" and "exec conventionalCommitPattern (headerOf message) = None"
  shows "\<exists>r. validateCommitMessage message = Inr r \<and>
           length (errors r) = 1 \<and> \<not> valid r \<and>
           errors r = [if trim message = [] then emptyMessageError else formatError] \<and>
           warnings r = headerWarnings (headerOf message) @ bodyWarnings (bodyOf message) \<and>
           (\<forall>t. typeWarning t \<notin> set (warnings r)) \<and>
           subjectWarning \<notin> set (warnings r) \<and>
           imperativeWarning \<notin> set (warnings r) \<and>
           emptySubjectError \<notin> set (errors r)"
proof (cases "trim message = []")
  case True
  then have "headerOf message = []" "bodyOf message = []"
    by (simp_all add: headerOf_def bodyOf_def)
  with True show ?thesis
    by (simp add: validate_blank headerWarnings_def bodyWarnings_def error_texts_distinct)
next
  case False
  have "typeWarning t \<noteq> headerWarning n" "subjectWarning \<noteq> headerWarning n"
    "imperativeWarning \<noteq> headerWarning n" "typeWarning t \<noteq> bodyWarning"
    "subjectWarning \<noteq> bodyWarning" "imperativeWarning \<noteq> bodyWarning" for t n
    by (auto dest: arg_cong [where f = hd] simp: hd_texts)
  with False assms(2) show ?thesis
    by (simp add: validate_nomatch headerWarnings_def bodyWarnings_def error_texts_distinct)
qed

theorem unmatched_header_one_error_witness:
  "js ''fix typo'' \<noteq> [] \<and> exec conventionalCommitPattern (headerOf (js ''fix typo'')) = None \<and>
   (\<exists>r. validateCommitMessage (js ''fix typo'') = Inr r \<and> length (errors r) = 1 \<and> \<not> valid r \<and>
        errors r = [formatError] \<and> warnings r = [])"
proof -
  have a: "js ''fix typo'' \<noteq> []" by (simp add: js_def)
  have b: "exec conventionalCommitPattern (headerOf (js ''fix typo'')) = None"
    by (simp add: commit_eval_defs)
  have c: "trim (js ''fix typo'') \<noteq> []" "length (headerOf (js ''fix typo'')) = 8" "bodyOf (js ''fix typo'') = []"
    by (simp_all add: headerOf_def bodyOf_def trim_def js_def is_space_def)
  show ?thesis
    using a b c unmatched_header_one_error [OF a b]
    by (auto simp: headerWarnings_def bodyWarnings_def)
qed

text \<open>
  C10: the result never has more than one error. The empty-message error and the format
  error exclude each other, and the empty-subject error never appears, because a header
  that matches the pattern binds a subject of at least one code unit.
\<close>

theorem at_most_one_error:
  "(\<exists>r. validateCommitMessage message = Inr r \<and> length (errors r) \<le> 1 \<and>
        set (errors r) \<subseteq> {emptyMessageError, formatError} \<and>
        emptySubjectError \<notin> set (errors r)) \<and>
   (exec conventionalCommitPattern header = Some m \<longrightarrow>
      (\<exists>subject. m 4 = Some subject \<and> subject \<noteq> []))"
proof
  obtain r where r: "validateCommitMessage message = Inr r"
    "errors r = [emptyMessageError] \<or> errors r = [formatError] \<or> errors r = []"
    using validate_shape [of message] by blast
  then show "\<exists>r. validateCommitMessage message = Inr r \<and> length (errors r) \<le> 1 \<and>
        set (errors r) \<subseteq> {emptyMessageError, formatError} \<and>
        emptySubjectError \<notin> set (errors r)"
    using error_texts_distinct by auto
  show "exec conventionalCommitPattern header = Some m \<longrightarrow>
      (\<exists>subject. m 4 = Some subject \<and> subject \<noteq> [])"
    using conventionalCommitPattern_captures [of header m] by blast
qed

theorem at_most_one_error_witness:
  "\<exists>m. exec conventionalCommitPattern (js ''feat: x'') = Some m \<and> m 4 = Some (js ''x'') \<and>
       (\<exists>subject. m 4 = Some subject \<and> subject \<noteq> []) \<and>
       (\<exists>r. validateCommitMessage (js ''feat: x'') = Inr r \<and> length (errors r) \<le> 1)"
proof -
  obtain m where m: "exec conventionalCommitPattern (js ''feat: x'') = Some m" "m 4 = Some (js ''x'')"
    by (simp add: commit_eval_defs)
  from at_most_one_error [of "js ''feat: x''" "js ''feat: x''" m] m show ?thesis
    by blast
qed

text \<open>
  C1: \<open>validateCommitMessage("feat: added login")\<close> is valid, but the code gives no
  imperative-mood warning: the verb pattern has no word boundary, and \<open>added login\<close> begins
  with \<open>add\<close>.
\<close>

theorem added_login_draws_no_warning:
  "validateCommitMessage (js ''feat: added login'') = Inr \<lparr>valid = True, errors = [], warnings = []\<rparr> \<and>
   test imperativePattern (js ''added login'')"
  by (simp add: commit_eval_defs)

text \<open>
  C2, as the code has it: the type token is not optional. The header \<open>: fix typo\<close> does not
  match, and the message gets the format error.
\<close>

theorem missing_type_is_format_error:
  "exec conventionalCommitPattern (js '': fix typo'') = None \<and>
   validateCommitMessage (js '': fix typo'') =
     Inr \<lparr>valid = False, errors = [formatError], warnings = []\<rparr>"
  by (simp add: commit_eval_defs)

text \<open>
  C2, amended: the leading type token is mandatory. A header that matches the pattern binds
  as its type one or more word characters at the start of the header; a message whose header
  does not begin with a word character gets the format error and is not valid.
\<close>

theorem type_token_mandatory:
  "(exec conventionalCommitPattern header = Some m \<longrightarrow>
      (\<exists>type. m 1 = Some type \<and> type \<noteq> [] \<and> (\<forall>c \<in> set type. is_word c) \<and> prefix type header)) \<and>
   (trim message \<noteq> [] \<and> takeWhile is_word (headerOf message) = [] \<longrightarrow>
      validateCommitMessage message =
        Inr \<lparr>valid = False, errors = [formatError],
             warnings = headerWarnings (headerOf message) @ bodyWarnings (bodyOf message)\<rparr>)"
proof (intro conjI impI)
  assume "exec conventionalCommitPattern header = Some m"
  from conventionalCommitPattern_captures [OF this]
  obtain k where k: "1 \<le> k" "k \<le> length (takeWhile is_word header)" "m 1 = Some (take k header)"
    by blast
  have "k \<le> length header" using k(2) by (rule takeWhile_length_le)
  with k(1) have "take k header \<noteq> []" by auto
  moreover have "\<forall>c \<in> set (take k header). is_word c" using k(2) by (rule take_takeWhile_all)
  moreover have "prefix (take k header) header" by (rule take_is_prefix)
  ultimately show "\<exists>type. m 1 = Some type \<and> type \<noteq> [] \<and> (\<forall>c \<in> set type. is_word c) \<and> prefix type header"
    using k(3) by blast
next
  assume a: "trim message \<noteq> [] \<and> takeWhile is_word (headerOf message) = []"
  have "exec conventionalCommitPattern (headerOf message) = None"
  proof (cases "exec conventionalCommitPattern (headerOf message)")
    case None
    then show ?thesis .
  next
    case (Some m')
    from conventionalCommitPattern_captures [OF this] a show ?thesis by auto
  qed
  with a show "validateCommitMessage message =
        Inr \<lparr>valid = False, errors = [formatError],
             warnings = headerWarnings (headerOf message) @ bodyWarnings (bodyOf message)\<rparr>"
    by (simp add: validate_nomatch)
qed

theorem type_token_mandatory_witness:
  "(\<exists>m. exec conventionalCommitPattern (js ''feat: x'') = Some m \<and> m 1 = Some (js ''feat'')) \<and>
   trim (js '': fix typo'') \<noteq> [] \<and> takeWhile is_word (headerOf (js '': fix typo'')) = [] \<and>
   validateCommitMessage (js '': fix typo'') =
     Inr \<lparr>valid = False, errors = [formatError], warnings = []\<rparr>"
proof -
  obtain m where m: "exec conventionalCommitPattern (js ''feat: x'') = Some m" "m 1 = Some (js ''feat'')"
    by (simp add: commit_eval_defs)
  have a: "trim (js '': fix typo'') \<noteq> []" "takeWhile is_word (headerOf (js '': fix typo'')) = []"
    "length (headerOf (js '': fix typo'')) = 10" "bodyOf (js '': fix typo'') = []"
    by (simp_all add: headerOf_def bodyOf_def trim_def js_def is_space_def is_word_def)
  from type_token_mandatory [of "js ''feat: x''" m "js '': fix typo''"] m a show ?thesis
    by (auto simp: headerWarnings_def bodyWarnings_def)
qed

section \<open>Properties of the integration-branch detection\<close>

text \<open>
  C5: the claim makes the integration branch \<open>develop\<close> when \<open>origin/develop\<close> exists on the
  remote and otherwise the remote's symbolic default branch when there is one. The code
  tests whether the listing contains the text \<open>origin/develop\<close> anywhere: on a remote with
  \<open>develop-old\<close>, no \<open>develop\<close> and the default branch \<open>master\<close> it returns \<open>develop\<close>, where
  the decision of the claim is \<open>master\<close>.
\<close>

theorem getIntegrationBranch_develop_old:
  "getIntegrationBranch developOldQueries = js ''develop'' \<and>
   \<not> remoteHas (fetchFirst developOldQueries) (branchesFirst developOldQueries) ''develop'' \<and>
   headTarget developOldQueries = Some (js ''master'') \<and>
   integrationBranchSpec
     (remoteHas (fetchFirst developOldQueries) (branchesFirst developOldQueries) ''develop'')
     (headTarget developOldQueries)
     (remoteHas (fetchSecond developOldQueries) (branchesSecond developOldQueries) ''main'')
     (remoteHas (fetchSecond developOldQueries) (branchesSecond developOldQueries) ''master'')
     (remoteHas (fetchSecond developOldQueries) (branchesSecond developOldQueries) ''develop'') =
   js ''master''"
  by (simp add: developOldQueries_def getIntegrationBranch_def detectDefaultBranch_def
      integrationBranchSpec_def remoteHas_def listsBranch_def headTarget_def js_def trim_def
      is_space_def)

end
